theory Spec2Isabelle
  imports Complex_Main
begin

section \<open>Data model (src/unnamed/part_000, the type declarations)\<close>

text \<open>
  JavaScript numbers are modelled as exact rationals: the layout and placement formulas are
  read as arithmetic, not as IEEE-754 roundings, and there is no NaN or infinity except where
  a division by zero is written out below. The stacking counter is an unbounded integer.
  The \<open>file\<close> field of an upload is opaque and never read by the code below, so it is left out.
  Ids and URLs are only compared and copied and are byte strings; a caption is the sequence of
  its UTF-16 code units, since the framer trims it.
\<close>

type_synonym jstext = "nat list"

record UploadedPhoto =
  up_id :: string
  up_url :: string
  up_caption :: jstext

text \<open>A decoded image, as far as the framer reads it: its natural width and height.\<close>

record Image =
  img_width :: nat
  img_height :: nat

text \<open>
  The 2D canvas the framer draws on: its size in whole pixels and the drawing calls, in call
  order. The data URL returned by \<open>toDataURL\<close> is a lossless encoding of the composed
  canvas, so the canvas itself stands for it.
\<close>

datatype draw =
    FillRect string rat rat rat rat
  | DrawImage string rat rat rat rat rat rat rat rat
  | StrokeRect string rat rat rat rat rat
  | FillText jstext int string rat rat rat

record Canvas =
  canvas_width :: nat
  canvas_height :: nat
  drawn :: "draw list"

record FramedPhotoData =
  ph_id :: string
  originalUrl :: string
  framedUrl :: Canvas
  ph_x :: rat
  ph_y :: rat
  rotation :: rat
  zIndex :: int
  scale :: rat

section \<open>The framer (src/utils/imageProcessor.ts)\<close>

text \<open>
  What the browser contributes to \<open>createPolaroidFrame\<close>: whether an image URL decodes
  (\<open>onload\<close> with the decoded size, or \<open>onerror\<close>), and whether a 2D context can be had.
\<close>

record Host =
  loadImage :: "string \<Rightarrow> Image option"
  getContext2d :: bool

datatype frame_error = ImageLoadError | NoCanvasContext

text \<open>
  \<open>sourceAspect > 1\<close> for \<open>sourceAspect = img.width / img.height\<close>. In JavaScript a
  division by zero gives Infinity for a positive numerator (and Infinity > 1 holds) and NaN
  for 0 / 0 (and NaN > 1 does not).
\<close>

definition sourceAspect_gt_1 :: "Image \<Rightarrow> bool" where
  "sourceAspect_gt_1 img =
     (if img_height img = 0 then 0 < img_width img
      else (of_nat (img_width img) :: rat) / of_nat (img_height img) > 1)"

text \<open>
  \<open>String.prototype.trim\<close> strips white space and line terminators from both ends: the code
  units U+0009 to U+000D, U+0020, U+00A0, U+1680, U+2000 to U+200A, U+2028, U+2029, U+202F,
  U+205F, U+3000 and U+FEFF.
\<close>

definition is_space :: "nat \<Rightarrow> bool" where
  "is_space c =
     (c \<in> set [0x09, 0x0A, 0x0B, 0x0C, 0x0D, 0x20, 0xA0, 0x1680, 0x2028, 0x2029, 0x202F,
                0x205F, 0x3000, 0xFEFF] \<or>
      (0x2000 \<le> c \<and> c \<le> 0x200A))"

definition trim :: "jstext \<Rightarrow> jstext" where
  "trim s = rev (dropWhile is_space (rev (dropWhile is_space s)))"

text \<open>
  Assigning a number to \<open>canvas.width\<close> or \<open>canvas.height\<close>. Both are attributes of type
  \<open>unsigned long\<close>: the number is truncated towards zero and taken modulo \<open>2 ^ 32\<close>, and a
  result above \<open>2 ^ 31 - 1\<close> is replaced by the attribute's default, 300 for the width and 150
  for the height. What is read back from the attribute is this whole number.
\<close>

definition to_unsigned_long :: "rat \<Rightarrow> nat" where
  "to_unsigned_long v = nat ((if v < 0 then - \<lfloor>- v\<rfloor> else \<lfloor>v\<rfloor>) mod 2 ^ 32)"

definition canvas_size :: "nat \<Rightarrow> rat \<Rightarrow> nat" where
  "canvas_size dflt v = (let n = to_unsigned_long v in if n > 2147483647 then dflt else n)"

definition createPolaroidFrame :: "Host \<Rightarrow> string \<Rightarrow> jstext \<Rightarrow> rat \<Rightarrow> frame_error + Canvas" where
  "createPolaroidFrame host imageUrl text width =
     (case loadImage host imageUrl of
        None \<Rightarrow> Inl ImageLoadError
      | Some img \<Rightarrow>
          if \<not> getContext2d host then Inl NoCanvasContext
          else
            let frameWidth = width;
                frameHeight = width * 1.25;
                padding = width * 0.08;
                photoWidth = frameWidth - (padding * 2);
                photoHeight = photoWidth;
                canvas_w = canvas_size 300 frameWidth;
                canvas_h = canvas_size 150 frameHeight;
                paper = FillRect ''#ffffff'' 0 0 (of_nat canvas_w) (of_nat canvas_h);
                shadow = FillRect ''#f0f0f0'' padding padding photoWidth photoHeight;
                w = of_nat (img_width img);
                h = of_nat (img_height img);
                wide = sourceAspect_gt_1 img;
                sx = (if wide then (w - h) / 2 else 0);
                sy = (if wide then 0 else (h - w) / 2);
                sWidth = (if wide then h else w);
                sHeight = (if wide then h else w);
                photo = DrawImage imageUrl sx sy sWidth sHeight padding padding photoWidth photoHeight;
                border = StrokeRect ''#e5e5e5'' 1 padding padding photoWidth photoHeight;
                caption =
                  (if text \<noteq> [] \<and> length (trim text) > 0 then
                     let fontSize = \<lfloor>width * 0.1\<rfloor>;
                         bottomAreaTop = padding + photoHeight;
                         bottomAreaHeight = frameHeight - bottomAreaTop;
                         textX = frameWidth / 2;
                         textY = bottomAreaTop + (bottomAreaHeight / 2) + (of_int fontSize * 0.1)
                     in [FillText text fontSize ''#374151'' textX textY (frameWidth - (padding * 2))]
                   else [])
            in Inr \<lparr>canvas_width = canvas_w, canvas_height = canvas_h,
                     drawn = [paper, shadow, photo, border] @ caption\<rparr>)"

text \<open>The drawing calls that place the source image.\<close>

fun is_DrawImage :: "draw \<Rightarrow> bool" where
  "is_DrawImage (DrawImage u sx sy sw sh dx dy dw dh) = True"
| "is_DrawImage d = False"

section \<open>Application state (src/App.tsx)\<close>

text \<open>
  The component state of \<open>App\<close> that the lifecycle and the spatial model use: the three
  collections, the processing flag and progress, whether a camera stream is open, and the
  \<open>highestZIndex\<close> reference cell. Every handler is modelled as reading the current state,
  that is, the component has re-rendered between two handler calls.
\<close>

record App =
  uploads :: "UploadedPhoto list"
  processingQueue :: "FramedPhotoData list"
  dispensedPhotos :: "FramedPhotoData list"
  isProcessing :: bool
  progress :: rat
  cameraStream :: bool
  highestZIndex :: int

definition initial :: App where
  "initial = \<lparr>uploads = [], processingQueue = [], dispensedPhotos = [], isProcessing = False,
               progress = 0, cameraStream = False, highestZIndex = 10\<rparr>"

text \<open>
  \<open>handleFileUpload\<close>: the new files, each with its fresh id and object URL, are appended
  with an empty caption. \<open>snapPhoto\<close> appends one upload the same way.
\<close>

definition handleFileUpload :: "(string \<times> string) list \<Rightarrow> App \<Rightarrow> App" where
  "handleFileUpload files s =
     s\<lparr>uploads := uploads s @ map (\<lambda>(i, u). \<lparr>up_id = i, up_url = u, up_caption = []\<rparr>) files\<rparr>"

text \<open>
  \<open>startCamera\<close>, once \<open>getUserMedia\<close> has settled: with a stream the camera is open, on
  a rejection the state is left as it is.
\<close>

definition startCamera :: "bool \<Rightarrow> App \<Rightarrow> App" where
  "startCamera granted s = (if granted then s\<lparr>cameraStream := True\<rparr> else s)"

definition stopCamera :: "App \<Rightarrow> App" where
  "stopCamera s = (if cameraStream s then s\<lparr>cameraStream := False\<rparr> else s)"

definition removeUpload :: "string \<Rightarrow> App \<Rightarrow> App" where
  "removeUpload i s = s\<lparr>uploads := filter (\<lambda>p. up_id p \<noteq> i) (uploads s)\<rparr>"

definition updateCaption :: "string \<Rightarrow> jstext \<Rightarrow> App \<Rightarrow> App" where
  "updateCaption i text s =
     s\<lparr>uploads := map (\<lambda>p. if up_id p = i then p\<lparr>up_caption := text\<rparr> else p) (uploads s)\<rparr>"

definition deleteDispensedPhoto :: "string \<Rightarrow> App \<Rightarrow> App" where
  "deleteDispensedPhoto i s = s\<lparr>dispensedPhotos := filter (\<lambda>p. ph_id p \<noteq> i) (dispensedPhotos s)\<rparr>"

text \<open>\<open>p.scale || 1\<close>: a scale of 0 is falsy and is read as 1.\<close>

definition newScale :: "rat \<Rightarrow> rat \<Rightarrow> rat" where
  "newScale sc delta = max 0.5 (min 2.5 ((if sc = 0 then 1 else sc) + delta))"

definition updatePhotoScale :: "string \<Rightarrow> rat \<Rightarrow> App \<Rightarrow> App" where
  "updatePhotoScale i delta s =
     s\<lparr>dispensedPhotos :=
          map (\<lambda>p. if ph_id p = i then p\<lparr>scale := newScale (scale p) delta\<rparr> else p)
            (dispensedPhotos s)\<rparr>"

text \<open>
  \<open>ejectPhoto\<close>. \<open>desk\<close> is the desk element's client size, \<open>None\<close> when the reference is
  not set; a missing or zero size falls back to 300 and 500. \<open>r1\<close>, \<open>r2\<close>, \<open>r3\<close> are the
  three draws of \<open>Math.random()\<close>, in call order.
\<close>

definition ejectPhoto :: "(nat \<times> nat) option \<Rightarrow> rat \<Rightarrow> rat \<Rightarrow> rat \<Rightarrow> App \<Rightarrow> App" where
  "ejectPhoto desk r1 r2 r3 s =
     (case processingQueue s of
        [] \<Rightarrow> s
      | nextPhoto # remainingQueue \<Rightarrow>
          let deskWidth = (case desk of None \<Rightarrow> 300 | Some (w, h) \<Rightarrow> if w = 0 then 300 else of_nat w);
              deskHeight = (case desk of None \<Rightarrow> 500 | Some (w, h) \<Rightarrow> if h = 0 then 500 else of_nat h);
              padding = 50;
              randomX = r1 * (deskWidth - 150 - padding * 2) + padding;
              randomY = r2 * (deskHeight - 200 - padding * 2) + padding;
              randomRot = r3 * 40 - 20;
              dispensedPhoto = nextPhoto\<lparr>ph_x := randomX, ph_y := randomY, rotation := randomRot,
                                          zIndex := highestZIndex s, scale := 1\<rparr>
          in s\<lparr>processingQueue := remainingQueue,
               highestZIndex := highestZIndex s + 1,
               dispensedPhotos := dispensedPhotos s @ [dispensedPhoto]\<rparr>)"

definition handleDragStart :: "string \<Rightarrow> App \<Rightarrow> App" where
  "handleDragStart i s =
     (let z = highestZIndex s + 1
      in s\<lparr>highestZIndex := z,
           dispensedPhotos := map (\<lambda>p. if ph_id p = i then p\<lparr>zIndex := z\<rparr> else p) (dispensedPhotos s)\<rparr>)"

section \<open>The batch run of \<open>processPhotos\<close> (src/App.tsx)\<close>

text \<open>
  \<open>processPhotos\<close> is an asynchronous function: it runs up to its first \<open>await\<close> when it
  is called, and is resumed once for each later \<open>await\<close>. A \<open>Run\<close> is the suspended call: the
  \<open>uploads\<close> array its closure captured when it was called, its local variables, and the
  \<open>await\<close> it is stopped at: the 800 ms feeding delay, the promise of
  \<open>createPolaroidFrame\<close> for item \<open>i\<close>, or the 600 ms delay after item \<open>i\<close>.
\<close>

datatype pc = Feeding | Framing | Pacing

record Run =
  run_uploads :: "UploadedPhoto list"
  run_total :: nat
  run_newQueue :: "FramedPhotoData list"
  run_i :: nat
  run_pc :: pc

text \<open>
  The call itself, up to the first \<open>await\<close>. \<open>total\<close> and \<open>newQueue\<close> are declared after
  that \<open>await\<close>, from the captured \<open>uploads\<close>; they are set here, which is the same value.
\<close>

definition processPhotos :: "App \<Rightarrow> App \<times> Run option" where
  "processPhotos s =
     (if length (uploads s) = 0 \<or> isProcessing s then (s, None)
      else
        let s1 = (if cameraStream s then stopCamera s else s);
            s2 = s1\<lparr>isProcessing := True, progress := 0\<rparr>
        in (s2, Some \<lparr>run_uploads = uploads s, run_total = length (uploads s),
                      run_newQueue = [], run_i = 0, run_pc = Feeding\<rparr>))"

text \<open>The four state updates after the loop.\<close>

definition processPhotos_finish :: "App \<Rightarrow> Run \<Rightarrow> App" where
  "processPhotos_finish s r =
     s\<lparr>processingQueue := processingQueue s @ run_newQueue r,
       uploads := [], isProcessing := False, progress := 0\<rparr>"

text \<open>The loop test \<open>i < total\<close>: the next item is handed to the framer, or the run ends.\<close>

definition processPhotos_test :: "App \<Rightarrow> Run \<Rightarrow> App \<times> Run option" where
  "processPhotos_test s r =
     (if run_i r < run_total r then (s, Some (r\<lparr>run_pc := Framing\<rparr>))
      else (processPhotos_finish s r, None))"

text \<open>
  Resuming the run at its \<open>await\<close>. At \<open>Framing\<close> the promise of \<open>createPolaroidFrame\<close> has
  settled: a rejection is caught and logged, and progress is set in either case.
\<close>

definition processPhotos_resume :: "Host \<Rightarrow> App \<Rightarrow> Run \<Rightarrow> App \<times> Run option" where
  "processPhotos_resume host s r =
     (case run_pc r of
        Feeding \<Rightarrow> processPhotos_test s (r\<lparr>run_i := 0\<rparr>)
      | Framing \<Rightarrow>
          let photo = run_uploads r ! run_i r;
              newQueue =
                (case createPolaroidFrame host (up_url photo) (up_caption photo) 600 of
                   Inr framedBase64 \<Rightarrow>
                     run_newQueue r @
                       [\<lparr>ph_id = up_id photo, originalUrl = up_url photo, framedUrl = framedBase64,
                         ph_x = 0, ph_y = 0, rotation = 0, zIndex = 0, scale = 1\<rparr>]
                 | Inl err \<Rightarrow> run_newQueue r)
          in (s\<lparr>progress := ((of_nat (run_i r) + 1) / of_nat (run_total r)) * 100\<rparr>,
              Some (r\<lparr>run_newQueue := newQueue, run_pc := Pacing\<rparr>))
      | Pacing \<Rightarrow> processPhotos_test s (r\<lparr>run_i := run_i r + 1\<rparr>))"

definition run_measure :: "Run \<Rightarrow> nat" where
  "run_measure r =
     (case run_pc r of
        Feeding \<Rightarrow> 3 * run_total r + 3
      | Framing \<Rightarrow> 3 * (run_total r - run_i r) + 2
      | Pacing \<Rightarrow> 3 * (run_total r - run_i r) + 1)"

text \<open>A run that nothing interleaves with: resumed until it ends.\<close>

function run_to_end :: "Host \<Rightarrow> App \<Rightarrow> Run \<Rightarrow> App" where
  "run_to_end host s r =
     (case processPhotos_resume host s r of
        (s', None) \<Rightarrow> s'
      | (s', Some r') \<Rightarrow> run_to_end host s' r')"
  by pat_completeness auto
termination
  by (relation "measure (\<lambda>(host, s, r). run_measure r)")
    (auto simp: processPhotos_resume_def processPhotos_test_def run_measure_def Let_def
      split: pc.splits if_splits)

text \<open>The progress values the loop of such a run sets, in order.\<close>

function run_reports :: "Host \<Rightarrow> App \<Rightarrow> Run \<Rightarrow> rat list" where
  "run_reports host s r =
     (case processPhotos_resume host s r of
        (s', None) \<Rightarrow> []
      | (s', Some r') \<Rightarrow>
          (if run_pc r = Framing then [progress s'] else []) @ run_reports host s' r')"
  by pat_completeness auto
termination
  by (relation "measure (\<lambda>(host, s, r). run_measure r)")
    (auto simp: processPhotos_resume_def processPhotos_test_def run_measure_def Let_def
      split: pc.splits if_splits)

definition develop :: "Host \<Rightarrow> App \<Rightarrow> App" where
  "develop host s =
     (case processPhotos s of
        (s', None) \<Rightarrow> s'
      | (s', Some r) \<Rightarrow> run_to_end host s' r)"

definition develop_reports :: "Host \<Rightarrow> App \<Rightarrow> rat list" where
  "develop_reports host s =
     (case processPhotos s of
        (s', None) \<Rightarrow> []
      | (s', Some r) \<Rightarrow> run_reports host s' r)"

section \<open>The event loop\<close>

text \<open>
  The single thread of control: the application state and the suspended calls of
  \<open>processPhotos\<close>. An event is a handler call or the resumption of a suspended call;
  each runs to its end (or its next \<open>await\<close>) before the next event.
\<close>

datatype event =
    HandleFileUpload "(string \<times> string) list"
  | StartCamera bool
  | StopCamera
  | RemoveUpload string
  | UpdateCaption string jstext
  | DeleteDispensedPhoto string
  | UpdatePhotoScale string rat
  | ProcessPhotos
  | EjectPhoto "(nat \<times> nat) option" rat rat rat
  | HandleDragStart string
  | Resume nat

type_synonym system = "App \<times> Run list"

fun step :: "Host \<Rightarrow> system \<Rightarrow> event \<Rightarrow> system" where
  "step host (s, runs) (HandleFileUpload files) = (handleFileUpload files s, runs)"
| "step host (s, runs) (StartCamera granted) = (startCamera granted s, runs)"
| "step host (s, runs) StopCamera = (stopCamera s, runs)"
| "step host (s, runs) (RemoveUpload i) = (removeUpload i s, runs)"
| "step host (s, runs) (UpdateCaption i text) = (updateCaption i text s, runs)"
| "step host (s, runs) (DeleteDispensedPhoto i) = (deleteDispensedPhoto i s, runs)"
| "step host (s, runs) (UpdatePhotoScale i delta) = (updatePhotoScale i delta s, runs)"
| "step host (s, runs) ProcessPhotos =
     (case processPhotos s of
        (s', None) \<Rightarrow> (s', runs)
      | (s', Some r) \<Rightarrow> (s', runs @ [r]))"
| "step host (s, runs) (EjectPhoto desk r1 r2 r3) = (ejectPhoto desk r1 r2 r3 s, runs)"
| "step host (s, runs) (HandleDragStart i) = (handleDragStart i s, runs)"
| "step host (s, runs) (Resume k) =
     (if k < length runs then
        (case processPhotos_resume host s (runs ! k) of
           (s', None) \<Rightarrow> (s', take k runs @ drop (Suc k) runs)
         | (s', Some r') \<Rightarrow> (s', runs[k := r']))
      else (s, runs))"

definition exec :: "Host \<Rightarrow> event list \<Rightarrow> system \<Rightarrow> system" where
  "exec host evs st = foldl (step host) st evs"

text \<open>Some call of \<open>processPhotos\<close> is suspended before each of the events and after the last.\<close>

fun in_flight :: "Host \<Rightarrow> system \<Rightarrow> event list \<Rightarrow> bool" where
  "in_flight host st [] = (snd st \<noteq> [])"
| "in_flight host st (e # es) = (snd st \<noteq> [] \<and> in_flight host (step host st e) es)"

text \<open>Releasing several times in a row, each release with its own desk size and random draws.\<close>

fun ejectPhotos :: "((nat \<times> nat) option \<times> rat \<times> rat \<times> rat) list \<Rightarrow> App \<Rightarrow> App" where
  "ejectPhotos [] s = s"
| "ejectPhotos ((desk, r1, r2, r3) # ins) s = ejectPhotos ins (ejectPhoto desk r1 r2 r3 s)"

section \<open>What the batch run is to compute\<close>

text \<open>
  The outcome of a batch as the design states it: each pending item is handed to the framer,
  a success gives an artifact at position 0, 0 with scale 1, a failure gives nothing, and the
  artifacts keep the order of the pending items.
\<close>

definition spec_frame :: "Host \<Rightarrow> UploadedPhoto \<Rightarrow> FramedPhotoData option" where
  "spec_frame host photo =
     (case createPolaroidFrame host (up_url photo) (up_caption photo) 600 of
        Inl err \<Rightarrow> None
      | Inr c \<Rightarrow>
          Some \<lparr>ph_id = up_id photo, originalUrl = up_url photo, framedUrl = c,
                ph_x = 0, ph_y = 0, rotation = 0, zIndex = 0, scale = 1\<rparr>)"

definition spec_framed :: "Host \<Rightarrow> UploadedPhoto list \<Rightarrow> FramedPhotoData list" where
  "spec_framed host ups = List.map_filter (spec_frame host) ups"

definition frames_ok :: "Host \<Rightarrow> UploadedPhoto \<Rightarrow> bool" where
  "frames_ok host photo = (\<not> isl (createPolaroidFrame host (up_url photo) (up_caption photo) 600))"

text \<open>What a released photo keeps of the queued artifact.\<close>

definition artifact :: "FramedPhotoData \<Rightarrow> string \<times> string \<times> Canvas" where
  "artifact p = (ph_id p, originalUrl p, framedUrl p)"

section \<open>Sample inputs\<close>

text \<open>
  A host in which \<open>wide.png\<close> decodes to 800 by 400, \<open>tall.png\<close> to 400 by 800, and
  nothing else decodes; three uploads with the captions A, none and C, the second of which
  cannot be decoded.
\<close>

definition sample_host :: Host where
  "sample_host =
     \<lparr>loadImage = (\<lambda>u. if u = ''wide.png'' then Some \<lparr>img_width = 800, img_height = 400\<rparr>
                         else if u = ''tall.png'' then Some \<lparr>img_width = 400, img_height = 800\<rparr>
                         else None),
      getContext2d = True\<rparr>"

definition photo_a :: UploadedPhoto where
  "photo_a = \<lparr>up_id = ''a'', up_url = ''wide.png'', up_caption = [65]\<rparr>"

definition photo_b :: UploadedPhoto where
  "photo_b = \<lparr>up_id = ''b'', up_url = ''gone.png'', up_caption = []\<rparr>"

definition photo_c :: UploadedPhoto where
  "photo_c = \<lparr>up_id = ''c'', up_url = ''tall.png'', up_caption = [67]\<rparr>"


definition sample_oversize :: "frame_error + Canvas" where
  "sample_oversize = createPolaroidFrame sample_host ''wide.png'' [] 2147483648"

definition sample_pending :: App where
  "sample_pending = initial\<lparr>uploads := [photo_a, photo_b, photo_c]\<rparr>"

definition sample_queued :: App where
  "sample_queued = develop sample_host sample_pending"

text \<open>A run over an undecodable and a decodable upload, stopped after its first item.\<close>

definition sample_midrun :: system where
  "sample_midrun =
     exec sample_host [ProcessPhotos, Resume 0, Resume 0] (initial\<lparr>uploads := [photo_b, photo_a]\<rparr>, [])"

text \<open>A run over one upload, and events during it: a file is uploaded while it is framing.\<close>

definition sample_started :: system where
  "sample_started = step sample_host (initial\<lparr>uploads := [photo_a]\<rparr>, []) ProcessPhotos"

definition sample_late :: "event list" where
  "sample_late = [Resume 0, HandleFileUpload [(''d'', ''tall.png'')], Resume 0]"

definition sample_draws :: "((nat \<times> nat) option \<times> rat \<times> rat \<times> rat) list" where
  "sample_draws = [(Some (1000, 800), 1 / 2, 1 / 4, 3 / 4), (None, 0, 0, 0)]"

text \<open>Release, drag the released photo, release again.\<close>

definition sample_tie :: App where
  "sample_tie =
     ejectPhoto None (1 / 2) (1 / 2) (1 / 2)
       (handleDragStart ''a'' (ejectPhoto None (1 / 2) (1 / 2) (1 / 2) sample_queued))"

section \<open>Invariants of a run\<close>

text \<open>
  A suspended run over the captured uploads \<open>U\<close>: its queue holds the artifacts of the items
  already handled, in their order.
\<close>

definition run_ok :: "Host \<Rightarrow> UploadedPhoto list \<Rightarrow> Run \<Rightarrow> bool" where
  "run_ok host U r =
     (run_uploads r = U \<and> run_total r = length U \<and>
      (case run_pc r of
         Feeding \<Rightarrow> run_newQueue r = []
       | Framing \<Rightarrow> run_i r < length U \<and> run_newQueue r = spec_framed host (take (run_i r) U)
       | Pacing \<Rightarrow> run_i r < length U \<and> run_newQueue r = spec_framed host (take (Suc (run_i r)) U)))"

definition flight_inv :: "Host \<Rightarrow> UploadedPhoto list \<Rightarrow> system \<Rightarrow> bool" where
  "flight_inv host U st = (\<exists>r. snd st = [r] \<and> run_ok host U r \<and> isProcessing (fst st))"

definition sys_inv :: "system \<Rightarrow> bool" where
  "sys_inv st = (length (snd st) \<le> 1 \<and> (isProcessing (fst st) \<longleftrightarrow> snd st \<noteq> []))"

definition percent :: "nat \<Rightarrow> nat \<Rightarrow> rat" where
  "percent k n = (of_nat k / of_nat n) * 100"

declare run_to_end.simps [simp del] run_reports.simps [simp del]

section \<open>The framer's layout\<close>

lemma sourceAspect_gt_1_iff: "sourceAspect_gt_1 img \<longleftrightarrow> img_height img < img_width img"
  by (simp add: sourceAspect_gt_1_def)

text \<open>
  C4. When the source decodes and a context is available, the framer succeeds and draws the
  source exactly once: from the centred square of the source (side the source height and
  \<open>sx = (width - height) / 2\<close>, \<open>sy = 0\<close> when the source is wider than high; side the source
  width and \<open>sx = 0\<close>, \<open>sy = (height - width) / 2\<close> otherwise) onto the whole photo region,
  the square at (padding, padding) that the shadow fill and the border also cover.
\<close>

theorem createPolaroidFrame_crop:
  assumes "loadImage host url = Some img" and "getContext2d host"
  shows "\<exists>c. createPolaroidFrame host url text w = Inr c \<and>
           (let W = of_nat (img_width img); H = of_nat (img_height img);
                padding = w * 0.08; photoSide = w - 2 * padding
            in filter is_DrawImage (drawn c) =
                 (if img_width img > img_height img
                  then [DrawImage url ((W - H) / 2) 0 H H padding padding photoSide photoSide]
                  else [DrawImage url 0 ((H - W) / 2) W W padding padding photoSide photoSide]) \<and>
               drawn c ! 1 = FillRect ''#f0f0f0'' padding padding photoSide photoSide \<and>
               drawn c ! 3 = StrokeRect ''#e5e5e5'' 1 padding padding photoSide photoSide)"
  using assms
  by (simp add: createPolaroidFrame_def Let_def sourceAspect_gt_1_iff)

theorem createPolaroidFrame_crop_witness:
  "loadImage sample_host ''wide.png'' = Some \<lparr>img_width = 800, img_height = 400\<rparr> \<and>
   getContext2d sample_host \<and>
   (\<exists>c. createPolaroidFrame sample_host ''wide.png'' [65] 600 = Inr c \<and>
        filter is_DrawImage (drawn c) = [DrawImage ''wide.png'' 200 0 400 400 48 48 504 504] \<and>
        drawn c ! 1 = FillRect ''#f0f0f0'' 48 48 504 504)"
proof -
  have l: "loadImage sample_host ''wide.png'' = Some \<lparr>img_width = 800, img_height = 400\<rparr>"
    and c: "getContext2d sample_host"
    by (simp_all add: sample_host_def)
  from createPolaroidFrame_crop [OF l c, of "[65]" 600] l c show ?thesis
    by (auto simp: Let_def)
qed





text \<open>
  Why the bound on the width: asked for a width of \<open>2 ^ 31\<close>, the canvas falls back to the
  default size of 300 by 150.
\<close>

lemma createPolaroidFrame_oversize:
  "canvas_width (projr sample_oversize) = 300 \<and> canvas_height (projr sample_oversize) = 150"
  by (simp add: sample_oversize_def sample_host_def createPolaroidFrame_def Let_def
      sourceAspect_gt_1_def trim_def canvas_size_def to_unsigned_long_def)

section \<open>The batch run\<close>

lemma spec_framed_Nil [simp]: "spec_framed host [] = []"
  by (simp add: spec_framed_def List.map_filter_def)

lemma spec_framed_snoc:
  "i < length U \<Longrightarrow> spec_framed host (take (Suc i) U) =
     spec_framed host (take i U) @ (case spec_frame host (U ! i) of None \<Rightarrow> [] | Some p \<Rightarrow> [p])"
  by (simp add: spec_framed_def List.map_filter_def take_Suc_conv_app_nth split: option.splits)

lemma spec_framed_ids:
  "map ph_id (spec_framed host U) = map up_id (filter (frames_ok host) U)"
  by (induction U)
    (auto simp: spec_framed_def List.map_filter_def spec_frame_def frames_ok_def split: sum.splits)

lemma run_ok_start:
  "processPhotos s = (s', Some r) \<Longrightarrow> run_ok host (uploads s) r \<and> isProcessing s'"
  by (auto simp: processPhotos_def run_ok_def Let_def stopCamera_def split: if_splits)

lemma run_ok_resume:
  assumes "run_ok host U r" and "processPhotos_resume host s r = (s', Some r')"
  shows "run_ok host U r' \<and> isProcessing s' = isProcessing s"
  using assms
  by (auto simp: run_ok_def processPhotos_resume_def processPhotos_test_def Let_def
      spec_framed_snoc spec_frame_def
      split: pc.splits if_splits sum.splits)

lemma run_ok_finish:
  assumes "run_ok host U r" and "processPhotos_resume host s r = (s', None)"
  shows "s' = s\<lparr>processingQueue := processingQueue s @ spec_framed host U,
                uploads := [], isProcessing := False, progress := 0\<rparr>"
  using assms
  by (auto simp: run_ok_def processPhotos_resume_def processPhotos_test_def Let_def
      processPhotos_finish_def spec_framed_def
      split: pc.splits if_splits)

lemma resume_only_progress:
  "processPhotos_resume host s r = (s', Some r') \<Longrightarrow> \<exists>p. s' = s\<lparr>progress := p\<rparr>"
  by (auto simp: processPhotos_resume_def processPhotos_test_def Let_def
      split: pc.splits if_splits intro: exI [of _ "progress s"])

lemma resume_flag:
  "processPhotos_resume host s r = (s', ro) \<Longrightarrow>
     (case ro of None \<Rightarrow> \<not> isProcessing s' | Some r' \<Rightarrow> isProcessing s' = isProcessing s)"
  by (auto simp: processPhotos_resume_def processPhotos_test_def processPhotos_finish_def Let_def
      split: pc.splits if_splits)

lemma run_to_end_ok:
  "run_ok host U r \<Longrightarrow>
   run_to_end host s r =
     s\<lparr>processingQueue := processingQueue s @ spec_framed host U,
       uploads := [], isProcessing := False, progress := 0\<rparr>"
proof (induction host s r rule: run_to_end.induct)
  case (1 host s r)
  obtain s' ro where res: "processPhotos_resume host s r = (s', ro)"
    by (cases "processPhotos_resume host s r")
  show ?case
  proof (cases ro)
    case None
    with res run_ok_finish [OF "1.prems", of s s'] show ?thesis
      by (simp add: run_to_end.simps [of host s r])
  next
    case (Some r')
    with res run_ok_resume [OF "1.prems", of s s' r'] have ok': "run_ok host U r'" by simp
    from res Some obtain p where s': "s' = s\<lparr>progress := p\<rparr>"
      using resume_only_progress by blast
    have "run_to_end host s r = run_to_end host s' r'"
      using res Some by (simp add: run_to_end.simps [of host s r])
    also have "\<dots> = s'\<lparr>processingQueue := processingQueue s' @ spec_framed host U,
       uploads := [], isProcessing := False, progress := 0\<rparr>"
      using "1.IH" [OF res [symmetric] Some ok'] .
    finally show ?thesis by (simp add: s')
  qed
qed

text \<open>
  The uninterrupted run is the event loop with nothing but resumptions of the one run.
\<close>

lemma run_to_end_exec:
  "\<exists>m. exec host (replicate m (Resume 0)) (s, [r]) = (run_to_end host s r, [])"
proof (induction host s r rule: run_to_end.induct)
  case (1 host s r)
  obtain s' ro where res: "processPhotos_resume host s r = (s', ro)"
    by (cases "processPhotos_resume host s r")
  show ?case
  proof (cases ro)
    case None
    with res have "exec host (replicate 1 (Resume 0)) (s, [r]) = (run_to_end host s r, [])"
      by (simp add: exec_def run_to_end.simps [of host s r])
    then show ?thesis by blast
  next
    case (Some r')
    from "1.IH" [OF res [symmetric] Some] obtain m
      where m: "exec host (replicate m (Resume 0)) (s', [r']) = (run_to_end host s' r', [])"
      by blast
    have "exec host (replicate (Suc m) (Resume 0)) (s, [r]) =
        exec host (replicate m (Resume 0)) (s', [r'])"
      using res Some by (simp add: exec_def)
    also have "\<dots> = (run_to_end host s r, [])"
      using m res Some by (simp add: run_to_end.simps [of host s r])
    finally show ?thesis by blast
  qed
qed

text \<open>An uninterrupted run from a state that passes the guard, in one equation.\<close>

lemma develop_eq:
  assumes "uploads s \<noteq> []" and "\<not> isProcessing s"
  shows "develop host s =
           s\<lparr>cameraStream := False,
             processingQueue := processingQueue s @ spec_framed host (uploads s),
             uploads := [], isProcessing := False, progress := 0\<rparr>"
proof -
  let ?s1 = "(if cameraStream s then stopCamera s else s)\<lparr>isProcessing := True, progress := 0\<rparr>"
  obtain r1 where start: "processPhotos s = (?s1, Some r1)"
    using assms by (simp add: processPhotos_def Let_def)
  have "run_ok host (uploads s) r1" using run_ok_start [OF start] by simp
  then have "develop host s =
      ?s1\<lparr>processingQueue := processingQueue ?s1 @ spec_framed host (uploads s),
         uploads := [], isProcessing := False, progress := 0\<rparr>"
    using start by (simp add: develop_def run_to_end_ok)
  then show ?thesis by (simp add: stopCamera_def)
qed

lemma run_reports_Pacing:
  assumes "run_pc r = Pacing" and "Suc (run_i r) \<ge> run_total r"
  shows "run_reports host s r = []"
  using assms
  by (simp add: run_reports.simps [of host s r] processPhotos_resume_def processPhotos_test_def)

lemma run_reports_Framing:
  "run_pc r = Framing \<Longrightarrow> run_total r = n \<Longrightarrow> run_i r = n - k \<Longrightarrow> 0 < k \<Longrightarrow> k \<le> n \<Longrightarrow>
   run_reports host s r = map (\<lambda>j. percent j n) [Suc (n - k)..<Suc n]"
proof (induction k arbitrary: s r)
  case 0
  then show ?case by simp
next
  case (Suc k)
  let ?i = "n - Suc k"
  obtain s1 r1 where res1: "processPhotos_resume host s r = (s1, Some r1)"
    and r1: "run_pc r1 = Pacing" "run_total r1 = n" "run_i r1 = ?i"
    and p1: "progress s1 = percent (Suc ?i) n"
    using Suc.prems
    by (auto simp: processPhotos_resume_def Let_def percent_def)
  have step1: "run_reports host s r = percent (Suc ?i) n # run_reports host s1 r1"
    using res1 p1 Suc.prems(1) by (simp add: run_reports.simps [of host s r])
  show ?case
  proof (cases "k = 0")
    case True
    with r1 Suc.prems have "run_reports host s1 r1 = []"
      by (intro run_reports_Pacing) auto
    with step1 True Suc.prems show ?thesis by simp
  next
    case False
    with Suc.prems have lt: "Suc ?i < n" by arith
    obtain r2 where res2: "processPhotos_resume host s1 r1 = (s1, Some r2)"
      and r2: "run_pc r2 = Framing" "run_total r2 = n" "run_i r2 = Suc ?i"
      using r1 lt by (auto simp: processPhotos_resume_def processPhotos_test_def)
    have step2: "run_reports host s1 r1 = run_reports host s1 r2"
      using res2 r1 by (simp add: run_reports.simps [of host s1 r1])
    have i2: "run_i r2 = n - k" using r2 Suc.prems by arith
    have "run_reports host s1 r2 = map (\<lambda>j. percent j n) [Suc (n - k)..<Suc n]"
      using Suc.IH [OF r2(1) r2(2) i2] False Suc.prems by simp
    moreover have "[Suc ?i..<Suc n] = Suc ?i # [Suc (n - k)..<Suc n]"
      using Suc.prems by (metis Suc_diff_Suc Suc_le_lessD lt Suc_lessD upt_conv_Cons less_Suc_eq)
    ultimately show ?thesis using step1 step2 by simp
  qed
qed

subsection \<open>Sample runs\<close>

lemmas sample_defs = sample_pending_def sample_midrun_def sample_started_def
  sample_late_def sample_draws_def sample_tie_def sample_host_def
  photo_a_def photo_b_def photo_c_def initial_def

lemmas eval_defs = exec_def processPhotos_def processPhotos_resume_def processPhotos_test_def
  processPhotos_finish_def handleFileUpload_def createPolaroidFrame_def sourceAspect_gt_1_def
  trim_def is_space_def Let_def ejectPhoto_def handleDragStart_def updatePhotoScale_def
  newScale_def stopCamera_def spec_framed_def List.map_filter_def spec_frame_def

lemma sample_frames_ok:
  "frames_ok sample_host photo_a" "\<not> frames_ok sample_host photo_b" "frames_ok sample_host photo_c"
  by (simp_all add: frames_ok_def createPolaroidFrame_def Let_def sample_host_def
      photo_a_def photo_b_def photo_c_def)

lemma sample_queued_eq:
  "sample_queued =
     initial\<lparr>processingQueue := spec_framed sample_host [photo_a, photo_b, photo_c]\<rparr>"
proof -
  have "uploads sample_pending \<noteq> []" and "\<not> isProcessing sample_pending"
    by (simp_all add: sample_pending_def initial_def)
  from develop_eq [OF this, of sample_host] show ?thesis
    by (simp add: sample_queued_def sample_pending_def initial_def)
qed

text \<open>
  C2, as the code has it. In a run over the \<open>n\<close> pending items of a state that passes the
  guard, the progress value set after the \<open>k\<close>-th item, whether its framing succeeded or
  failed, is \<open>(k / n) * 100\<close>; when the run has ended the pending collection is empty and
  progress is 0.
\<close>

theorem develop_progress:
  assumes "uploads s \<noteq> []" and "\<not> isProcessing s"
  shows "develop_reports host s =
           map (\<lambda>k. (of_nat k / of_nat (length (uploads s))) * 100) [1..<Suc (length (uploads s))] \<and>
         uploads (develop host s) = [] \<and> progress (develop host s) = 0"
proof -
  let ?n = "length (uploads s)"
  obtain s1 r1 where start: "processPhotos s = (s1, Some r1)"
    and r1: "run_pc r1 = Feeding" "run_total r1 = ?n"
    using assms by (auto simp: processPhotos_def Let_def)
  let ?r2 = "r1\<lparr>run_i := 0, run_pc := Framing\<rparr>"
  have n: "0 < ?n" using assms(1) by simp
  have res: "processPhotos_resume host s1 r1 = (s1, Some ?r2)"
    using r1 n by (simp add: processPhotos_resume_def processPhotos_test_def)
  have "run_reports host s1 r1 = run_reports host s1 ?r2"
    using res r1 by (simp add: run_reports.simps [of host s1 r1])
  also have "\<dots> = map (\<lambda>j. percent j ?n) [Suc (?n - ?n)..<Suc ?n]"
    using r1 n by (intro run_reports_Framing) simp_all
  finally have rep: "develop_reports host s = map (\<lambda>j. percent j ?n) [1..<Suc ?n]"
    using start by (simp add: develop_reports_def)
  from rep develop_eq [OF assms, of host] show ?thesis by (simp add: percent_def)
qed

theorem develop_progress_witness:
  "uploads sample_pending \<noteq> [] \<and> \<not> isProcessing sample_pending \<and>
   develop_reports sample_host sample_pending = [100 / 3, 200 / 3, 100] \<and>
   uploads (develop sample_host sample_pending) = [] \<and>
   progress (develop sample_host sample_pending) = 0"
  using develop_progress [of sample_pending sample_host]
  by (simp add: sample_defs upt_rec)

text \<open>
  C2, as stated, fails. In a run over an undecodable upload followed by a decodable one, the
  progress set after the first item is 50, while no item has been framed successfully: the
  fraction of successfully framed items is 0 of 2, as a fraction and as a percentage.
\<close>

theorem progress_counterexample:
  "progress (fst sample_midrun) = 50 \<and>
   length (run_newQueue (hd (snd sample_midrun))) = 0 \<and>
   run_total (hd (snd sample_midrun)) = 2 \<and>
   progress (fst sample_midrun) \<noteq>
     of_nat (length (run_newQueue (hd (snd sample_midrun)))) / of_nat (run_total (hd (snd sample_midrun))) \<and>
   progress (fst sample_midrun) \<noteq>
     of_nat (length (run_newQueue (hd (snd sample_midrun)))) / of_nat (run_total (hd (snd sample_midrun))) * 100"
  by (simp add: sample_defs eval_defs)

text \<open>
  C6. An uninterrupted run from a state in which no run is in flight appends to the queue the
  artifacts of the pending items, in their order, leaving out exactly the items whose framing
  fails: the ids appended are the ids of the pending items that frame, in pending order.
\<close>

theorem develop_order:
  assumes "\<not> isProcessing s"
  shows "processingQueue (develop host s) = processingQueue s @ spec_framed host (uploads s) \<and>
         map ph_id (processingQueue (develop host s)) =
           map ph_id (processingQueue s) @ map up_id (filter (frames_ok host) (uploads s))"
proof (cases "uploads s = []")
  case True
  then show ?thesis by (simp add: develop_def processPhotos_def)
next
  case False
  from develop_eq [OF False assms, of host] show ?thesis by (simp add: spec_framed_ids)
qed

theorem develop_order_witness:
  "\<not> isProcessing sample_pending \<and>
   map ph_id (processingQueue (develop sample_host sample_pending)) = [''a'', ''c'']"
proof -
  have np: "\<not> isProcessing sample_pending"
    by (simp add: sample_pending_def initial_def)
  from develop_order [OF np, of sample_host, THEN conjunct2]
  have "map ph_id (processingQueue (develop sample_host sample_pending)) =
      map up_id (filter (frames_ok sample_host) [photo_a, photo_b, photo_c])"
    by (simp add: sample_pending_def initial_def)
  also have "\<dots> = map up_id [photo_a, photo_c]"
    by (simp add: sample_frames_ok)
  finally show ?thesis using np by (simp add: photo_a_def photo_c_def)
qed

section \<open>Runs and the events between their steps\<close>

lemma flight_inv_step:
  assumes "flight_inv host U st" and "snd (step host st e) \<noteq> []"
  shows "flight_inv host U (step host st e)"
proof -
  obtain s r where st: "st = (s, [r])" and ok: "run_ok host U r" and p: "isProcessing s"
    using assms(1) by (cases st) (auto simp: flight_inv_def)
  show ?thesis
  proof (cases e)
    case (Resume k)
    show ?thesis
    proof (cases "processPhotos_resume host s r")
      case (Pair s' ro)
      with assms(2) st Resume ok p run_ok_resume [OF ok, of s s'] show ?thesis
        by (cases ro) (auto simp: flight_inv_def split: if_splits)
    qed
  next
    case ProcessPhotos
    with st ok p show ?thesis by (simp add: flight_inv_def processPhotos_def)
  next
    case (EjectPhoto d r1 r2 r3)
    with st ok p show ?thesis
      by (simp add: flight_inv_def ejectPhoto_def Let_def split: list.splits)
  qed (use st ok p in \<open>simp_all add: flight_inv_def handleFileUpload_def startCamera_def
        stopCamera_def removeUpload_def updateCaption_def deleteDispensedPhoto_def
        updatePhotoScale_def handleDragStart_def Let_def\<close>)
qed

lemma flight_inv_exec:
  "flight_inv host U st \<Longrightarrow> in_flight host st evs \<Longrightarrow> flight_inv host U (exec host evs st)"
proof (induction evs arbitrary: st)
  case Nil
  then show ?case by (simp add: exec_def)
next
  case (Cons e es)
  from Cons.prems(2) have nz: "snd (step host st e) \<noteq> []"
    by (cases es) simp_all
  have "flight_inv host U (step host st e)"
    using flight_inv_step [OF Cons.prems(1) nz] .
  moreover have "in_flight host (step host st e) es" using Cons.prems(2) by simp
  ultimately have "flight_inv host U (exec host es (step host st e))" by (rule Cons.IH)
  then show ?case by (simp add: exec_def)
qed

text \<open>
  C3. Let a call of \<open>processPhotos\<close> start a run in state \<open>s\<close>, let any events follow while
  the run stays in flight (uploads among them), and let the next resumption end the run.
  Then the pending collection is empty afterwards, whatever it held, and what the run appends
  to the queue are the artifacts of the uploads of \<open>s\<close>, the state of the call, and nothing
  else: an upload added during the run is discarded unframed.
\<close>

theorem develop_snapshot:
  assumes start: "processPhotos s = (s1, Some r1)"
    and flight: "in_flight host (s1, [r1]) evs"
    and fin: "step host (exec host evs (s1, [r1])) (Resume 0) = (s3, [])"
  shows "uploads s3 = [] \<and>
         processingQueue s3 =
           processingQueue (fst (exec host evs (s1, [r1]))) @ spec_framed host (uploads s)"
proof -
  have "flight_inv host (uploads s) (s1, [r1])"
    using run_ok_start [OF start, of host] by (simp add: flight_inv_def)
  then have "flight_inv host (uploads s) (exec host evs (s1, [r1]))"
    using flight by (rule flight_inv_exec)
  then obtain s2 r2 where e: "exec host evs (s1, [r1]) = (s2, [r2])"
    and ok: "run_ok host (uploads s) r2"
    by (cases "exec host evs (s1, [r1])") (auto simp: flight_inv_def)
  from fin e have "processPhotos_resume host s2 r2 = (s3, None)"
    by (auto split: prod.splits option.splits)
  from run_ok_finish [OF ok this] e show ?thesis by simp
qed

theorem develop_snapshot_witness:
  "in_flight sample_host sample_started sample_late \<and>
   map up_id (uploads (fst (exec sample_host sample_late sample_started))) = [''a'', ''d''] \<and>
   uploads (fst (step sample_host (exec sample_host sample_late sample_started) (Resume 0))) = [] \<and>
   map ph_id (processingQueue (fst (step sample_host (exec sample_host sample_late sample_started) (Resume 0)))) = [''a'']"
proof -
  let ?s = "initial\<lparr>uploads := [photo_a]\<rparr>"
  let ?s1 = "fst (processPhotos ?s)"
  let ?r1 = "the (snd (processPhotos ?s))"
  let ?end = "step sample_host (exec sample_host sample_late (?s1, [?r1])) (Resume 0)"
  have st: "sample_started = (?s1, [?r1])"
    by (simp add: sample_defs eval_defs)
  have h1: "processPhotos ?s = (?s1, Some ?r1)"
    by (simp add: sample_defs eval_defs)
  have h2: "in_flight sample_host (?s1, [?r1]) sample_late"
    by (simp add: sample_defs eval_defs)
  have h3: "?end = (fst ?end, [])"
    by (simp add: sample_defs eval_defs)
  have mid: "map up_id (uploads (fst (exec sample_host sample_late (?s1, [?r1])))) = [''a'', ''d'']"
    by (simp add: sample_defs eval_defs)
  have q: "processingQueue (fst (exec sample_host sample_late (?s1, [?r1]))) = []"
    by (simp add: sample_defs eval_defs)
  have ids: "map ph_id (spec_framed sample_host [photo_a]) = [''a'']"
    by (simp add: spec_framed_ids sample_frames_ok) (simp add: photo_a_def)
  from develop_snapshot [OF h1 h2 h3] h2 mid ids q show ?thesis
    unfolding st by (simp add: initial_def)
qed

lemma sys_inv_step: "sys_inv st \<Longrightarrow> sys_inv (step host st e)"
proof -
  assume inv: "sys_inv st"
  obtain s runs where st: "st = (s, runs)" by (cases st)
  show ?thesis
  proof (cases e)
    case (Resume k)
    show ?thesis
    proof (cases "k < length runs")
      case True
      with inv st obtain r where runs: "runs = [r]" and k: "k = 0"
        by (cases runs) (auto simp: sys_inv_def)
      obtain s' ro where res: "processPhotos_resume host s r = (s', ro)"
        by (cases "processPhotos_resume host s r")
      from resume_flag [OF res] inv st runs k Resume res show ?thesis
        by (cases ro) (auto simp: sys_inv_def)
    next
      case False
      with inv st Resume show ?thesis by simp
    qed
  next
    case ProcessPhotos
    with inv st show ?thesis
      by (auto simp: sys_inv_def processPhotos_def Let_def stopCamera_def)
  next
    case (EjectPhoto d r1 r2 r3)
    with inv st show ?thesis
      by (simp add: sys_inv_def ejectPhoto_def Let_def split: list.splits)
  qed (use inv st in \<open>simp_all add: sys_inv_def handleFileUpload_def startCamera_def
        stopCamera_def removeUpload_def updateCaption_def deleteDispensedPhoto_def
        updatePhotoScale_def handleDragStart_def Let_def\<close>)
qed

lemma sys_inv_exec: "sys_inv st \<Longrightarrow> sys_inv (exec host evs st)"
  unfolding exec_def by (induction evs arbitrary: st) (simp_all add: sys_inv_step)

text \<open>
  C8. In every state the application reaches from its initial state, by any events, at most
  one run is in flight; and when the pending collection is empty or a run is in flight, a
  call of \<open>processPhotos\<close> changes nothing: no collection, not the progress value, and no
  run is started.
\<close>

theorem develop_reentry:
  assumes "uploads (fst (exec host evs (initial, []))) = [] \<or> snd (exec host evs (initial, [])) \<noteq> []"
  shows "step host (exec host evs (initial, [])) ProcessPhotos = exec host evs (initial, []) \<and>
         length (snd (exec host evs (initial, []))) \<le> 1"
proof -
  have "sys_inv (initial, [])" by (simp add: sys_inv_def initial_def)
  then have inv: "sys_inv (exec host evs (initial, []))" by (rule sys_inv_exec)
  obtain s runs where st: "exec host evs (initial, []) = (s, runs)"
    by (cases "exec host evs (initial, [])")
  from inv assms st show ?thesis
    by (auto simp: sys_inv_def processPhotos_def)
qed

theorem develop_reentry_witness:
  "snd (exec sample_host [HandleFileUpload [(''a'', ''wide.png'')], ProcessPhotos, Resume 0, Resume 0]
          (initial, [])) \<noteq> [] \<and>
   progress (fst (exec sample_host
      [HandleFileUpload [(''a'', ''wide.png'')], ProcessPhotos, Resume 0, Resume 0] (initial, []))) = 100 \<and>
   step sample_host
     (exec sample_host [HandleFileUpload [(''a'', ''wide.png'')], ProcessPhotos, Resume 0, Resume 0]
        (initial, [])) ProcessPhotos =
   exec sample_host [HandleFileUpload [(''a'', ''wide.png'')], ProcessPhotos, Resume 0, Resume 0]
     (initial, [])"
proof -
  let ?st = "exec sample_host
    [HandleFileUpload [(''a'', ''wide.png'')], ProcessPhotos, Resume 0, Resume 0] (initial, [])"
  have run: "snd ?st \<noteq> []" and p: "progress (fst ?st) = 100"
    by (simp_all add: sample_defs eval_defs)
  then have "uploads (fst ?st) = [] \<or> snd ?st \<noteq> []" by simp
  from develop_reentry [OF this] run p show ?thesis by simp
qed

section \<open>Release, stacking and scale\<close>

lemma ejectPhotos_queue:
  "processingQueue (ejectPhotos ins s) = drop (length ins) (processingQueue s) \<and>
   map artifact (dispensedPhotos (ejectPhotos ins s)) =
     map artifact (dispensedPhotos s) @ map artifact (take (length ins) (processingQueue s))"
proof (induction ins arbitrary: s)
  case Nil
  then show ?case by simp
next
  case (Cons a ins)
  obtain desk r1 r2 r3 where a: "a = (desk, r1, r2, r3)" by (cases a)
  show ?case
  proof (cases "processingQueue s")
    case Nil
    then have "ejectPhoto desk r1 r2 r3 s = s" by (simp add: ejectPhoto_def)
    with Cons.IH [of s] a Nil show ?thesis by simp
  next
    case (Cons p ps)
    then have "processingQueue (ejectPhoto desk r1 r2 r3 s) = ps"
      and "map artifact (dispensedPhotos (ejectPhoto desk r1 r2 r3 s)) =
           map artifact (dispensedPhotos s) @ [artifact p]"
      by (simp_all add: ejectPhoto_def Let_def artifact_def)
    with Cons.IH [of "ejectPhoto desk r1 r2 r3 s"] a Cons show ?thesis by simp
  qed
qed

text \<open>
  C7. On an empty queue \<open>ejectPhoto\<close> changes nothing. On a queue with head \<open>p\<close> it removes
  exactly \<open>p\<close>, leaves the pending collection alone and appends to the placed collection one
  item that carries the artifact of \<open>p\<close>. Releasing as many times as the queue is long
  empties the queue and appends the artifacts in queue order.
\<close>

theorem release_fifo:
  "(processingQueue s = [] \<longrightarrow> ejectPhoto desk r1 r2 r3 s = s) \<and>
   (\<forall>p ps. processingQueue s = p # ps \<longrightarrow>
      processingQueue (ejectPhoto desk r1 r2 r3 s) = ps \<and>
      uploads (ejectPhoto desk r1 r2 r3 s) = uploads s \<and>
      butlast (dispensedPhotos (ejectPhoto desk r1 r2 r3 s)) = dispensedPhotos s \<and>
      artifact (last (dispensedPhotos (ejectPhoto desk r1 r2 r3 s))) = artifact p) \<and>
   (length ins = length (processingQueue s) \<longrightarrow>
      processingQueue (ejectPhotos ins s) = [] \<and>
      map artifact (dispensedPhotos (ejectPhotos ins s)) =
        map artifact (dispensedPhotos s) @ map artifact (processingQueue s))"
  using ejectPhotos_queue [of ins s]
  by (auto simp: ejectPhoto_def Let_def artifact_def)

theorem release_fifo_witness:
  "processingQueue initial = [] \<and>
   ejectPhoto None (1 / 2) (1 / 2) (1 / 2) initial = initial \<and>
   map ph_id (processingQueue sample_queued) = [''a'', ''c''] \<and>
   length sample_draws = length (processingQueue sample_queued) \<and>
   map ph_id (processingQueue (ejectPhoto None (1 / 2) (1 / 2) (1 / 2) sample_queued)) = [''c''] \<and>
   processingQueue (ejectPhotos sample_draws sample_queued) = [] \<and>
   map (fst \<circ> artifact) (dispensedPhotos (ejectPhotos sample_draws sample_queued)) = [''a'', ''c'']"
proof -
  have e: "processingQueue initial = []" by (simp add: initial_def)
  have q: "map ph_id (processingQueue sample_queued) = [''a'', ''c'']"
    by (simp add: sample_queued_eq spec_framed_ids sample_frames_ok initial_def)
      (simp add: photo_a_def photo_c_def)
  have d: "dispensedPhotos sample_queued = []" by (simp add: sample_queued_eq initial_def)
  have l: "length sample_draws = length (processingQueue sample_queued)"
    using arg_cong [OF q, of length] by (simp add: sample_draws_def)
  obtain p ps where pq: "processingQueue sample_queued = p # ps"
    using q by (cases "processingQueue sample_queued") auto
  note one = release_fifo [of initial None "1 / 2" "1 / 2" "1 / 2" "[]"]
  note two = release_fifo [of sample_queued None "1 / 2" "1 / 2" "1 / 2" sample_draws]
  have "map (fst \<circ> artifact) (dispensedPhotos (ejectPhotos sample_draws sample_queued)) =
      map fst (map artifact (dispensedPhotos (ejectPhotos sample_draws sample_queued)))"
    by simp
  also have "\<dots> = map ph_id (processingQueue sample_queued)"
    using two l d by (simp add: artifact_def comp_def)
  finally have placed: "map (fst \<circ> artifact) (dispensedPhotos (ejectPhotos sample_draws sample_queued)) =
      [''a'', ''c'']" using q by simp
  from one two e q l pq placed show ?thesis by auto
qed

text \<open>
  C9. For a desk of width at least 250 and height at least 300 and draws in [0, 1), the item
  that \<open>ejectPhoto\<close> places from a non-empty queue keeps 50 units from every edge for a
  footprint of 150 by 200, and its rotation lies between -20 and 20.
\<close>

theorem place_bounds:
  assumes "processingQueue s \<noteq> []" and "250 \<le> W" and "300 \<le> H"
    and "0 \<le> r1" "r1 < 1" "0 \<le> r2" "r2 < 1" "0 \<le> r3" "r3 < 1"
  shows "50 \<le> ph_x (last (dispensedPhotos (ejectPhoto (Some (W, H)) r1 r2 r3 s))) \<and>
         ph_x (last (dispensedPhotos (ejectPhoto (Some (W, H)) r1 r2 r3 s))) + 150 \<le> of_nat W - 50 \<and>
         50 \<le> ph_y (last (dispensedPhotos (ejectPhoto (Some (W, H)) r1 r2 r3 s))) \<and>
         ph_y (last (dispensedPhotos (ejectPhoto (Some (W, H)) r1 r2 r3 s))) + 200 \<le> of_nat H - 50 \<and>
         - 20 \<le> rotation (last (dispensedPhotos (ejectPhoto (Some (W, H)) r1 r2 r3 s))) \<and>
         rotation (last (dispensedPhotos (ejectPhoto (Some (W, H)) r1 r2 r3 s))) \<le> 20"
proof -
  obtain p ps where q: "processingQueue s = p # ps"
    using assms(1) by (cases "processingQueue s") auto
  have W: "(0::rat) \<le> of_nat W - 250" using assms(2) by simp
  have H: "(0::rat) \<le> of_nat H - 300" using assms(3) by simp
  have x0: "0 \<le> r1 * (of_nat W - 250)" using assms W by simp
  have x1: "r1 * (of_nat W - 250) \<le> of_nat W - 250"
    using assms W by (simp add: mult_left_le_one_le)
  have y0: "0 \<le> r2 * (of_nat H - 300)" using assms H by simp
  have y1: "r2 * (of_nat H - 300) \<le> of_nat H - 300"
    using assms H by (simp add: mult_left_le_one_le)
  have Wn: "W \<noteq> 0" and Hn: "H \<noteq> 0" using assms by auto
  have px: "ph_x (last (dispensedPhotos (ejectPhoto (Some (W, H)) r1 r2 r3 s))) =
      r1 * (of_nat W - 250) + 50"
    using q Wn by (simp add: ejectPhoto_def Let_def algebra_simps)
  have py: "ph_y (last (dispensedPhotos (ejectPhoto (Some (W, H)) r1 r2 r3 s))) =
      r2 * (of_nat H - 300) + 50"
    using q Hn by (simp add: ejectPhoto_def Let_def algebra_simps)
  have pr: "rotation (last (dispensedPhotos (ejectPhoto (Some (W, H)) r1 r2 r3 s))) = r3 * 40 - 20"
    using q by (simp add: ejectPhoto_def Let_def)
  show ?thesis unfolding px py pr using x0 x1 y0 y1 assms by simp
qed

theorem place_bounds_witness:
  "processingQueue sample_queued \<noteq> [] \<and>
   ph_x (last (dispensedPhotos (ejectPhoto (Some (1000, 800)) (1 / 2) (1 / 4) (3 / 4) sample_queued))) = 425 \<and>
   ph_y (last (dispensedPhotos (ejectPhoto (Some (1000, 800)) (1 / 2) (1 / 4) (3 / 4) sample_queued))) = 175 \<and>
   rotation (last (dispensedPhotos (ejectPhoto (Some (1000, 800)) (1 / 2) (1 / 4) (3 / 4) sample_queued))) = 10 \<and>
   ph_x (last (dispensedPhotos (ejectPhoto (Some (1000, 800)) (1 / 2) (1 / 4) (3 / 4) sample_queued))) + 150
     \<le> of_nat 1000 - 50"
proof -
  have q: "processingQueue sample_queued \<noteq> []"
    by (simp add: sample_queued_eq sample_defs eval_defs)
  have v: "ph_x (last (dispensedPhotos (ejectPhoto (Some (1000, 800)) (1 / 2) (1 / 4) (3 / 4) sample_queued))) = 425"
    "ph_y (last (dispensedPhotos (ejectPhoto (Some (1000, 800)) (1 / 2) (1 / 4) (3 / 4) sample_queued))) = 175"
    "rotation (last (dispensedPhotos (ejectPhoto (Some (1000, 800)) (1 / 2) (1 / 4) (3 / 4) sample_queued))) = 10"
    by (simp_all add: sample_queued_eq sample_defs eval_defs)
  from place_bounds [OF q, of 1000 800 "1 / 2" "1 / 4" "3 / 4"] q v show ?thesis by simp
qed

text \<open>
  C10. For a placed item with the given id whose scale lies in [0.5, 2.5], and any delta,
  \<open>updatePhotoScale\<close> sets the scale to \<open>max 0.5 (min 2.5 (scale + delta))\<close> and changes
  nothing else of the item. The new scale lies in [0.5, 2.5]; it is not below the old one for
  a delta of 0 or more, not above it for a delta of 0 or less, and it grows with delta.
\<close>

theorem rescale_clamp:
  assumes "k < length (dispensedPhotos s)" and "ph_id (dispensedPhotos s ! k) = i"
    and "1 / 2 \<le> scale (dispensedPhotos s ! k)" and "scale (dispensedPhotos s ! k) \<le> 5 / 2"
  shows "dispensedPhotos (updatePhotoScale i delta s) ! k =
           (dispensedPhotos s ! k)\<lparr>scale := max (1 / 2) (min (5 / 2) (scale (dispensedPhotos s ! k) + delta))\<rparr> \<and>
         1 / 2 \<le> scale (dispensedPhotos (updatePhotoScale i delta s) ! k) \<and>
         scale (dispensedPhotos (updatePhotoScale i delta s) ! k) \<le> 5 / 2 \<and>
         (0 \<le> delta \<longrightarrow> scale (dispensedPhotos s ! k) \<le> scale (dispensedPhotos (updatePhotoScale i delta s) ! k)) \<and>
         (delta \<le> 0 \<longrightarrow> scale (dispensedPhotos (updatePhotoScale i delta s) ! k) \<le> scale (dispensedPhotos s ! k)) \<and>
         (\<forall>d. delta \<le> d \<longrightarrow>
            scale (dispensedPhotos (updatePhotoScale i delta s) ! k) \<le>
            scale (dispensedPhotos (updatePhotoScale i d s) ! k))"
proof -
  let ?p = "dispensedPhotos s ! k"
  have nz: "scale ?p \<noteq> 0" using assms(3) by auto
  have upd: "\<And>d. dispensedPhotos (updatePhotoScale i d s) ! k =
      ?p\<lparr>scale := max (1 / 2) (min (5 / 2) (scale ?p + d))\<rparr>"
    using assms(1,2) nz by (simp add: updatePhotoScale_def newScale_def)
  show ?thesis unfolding upd using assms(3,4) by (auto simp: max_def min_def)
qed

theorem rescale_clamp_witness:
  "0 < length (dispensedPhotos (ejectPhotos sample_draws sample_queued)) \<and>
   ph_id (dispensedPhotos (ejectPhotos sample_draws sample_queued) ! 0) = ''a'' \<and>
   scale (dispensedPhotos (ejectPhotos sample_draws sample_queued) ! 0) = 1 \<and>
   scale (dispensedPhotos (updatePhotoScale ''a'' 2 (ejectPhotos sample_draws sample_queued)) ! 0) = 5 / 2 \<and>
   scale (dispensedPhotos (updatePhotoScale ''a'' (- 2) (ejectPhotos sample_draws sample_queued)) ! 0) = 1 / 2 \<and>
   scale (dispensedPhotos (updatePhotoScale ''a'' (1 / 10) (ejectPhotos sample_draws sample_queued)) ! 0) = 11 / 10"
proof -
  let ?s = "ejectPhotos sample_draws sample_queued"
  have h: "0 < length (dispensedPhotos ?s)" "ph_id (dispensedPhotos ?s ! 0) = ''a''"
    "scale (dispensedPhotos ?s ! 0) = 1"
    by (simp_all add: sample_queued_eq sample_defs eval_defs)
  then have r: "1 / 2 \<le> scale (dispensedPhotos ?s ! 0)" "scale (dispensedPhotos ?s ! 0) \<le> 5 / 2"
    by simp_all
  from rescale_clamp [OF h(1) h(2) r, of 2] rescale_clamp [OF h(1) h(2) r, of "- 2"]
    rescale_clamp [OF h(1) h(2) r, of "1 / 10"] h
  show ?thesis by simp
qed

text \<open>
  C1 fails on the code. \<open>ejectPhoto\<close> issues the counter and then increments it;
  \<open>handleDragStart\<close> increments the counter and then issues it. So a release that follows a
  drag issues the index the drag has just issued: after releasing \<open>a\<close>, dragging \<open>a\<close>
  and releasing \<open>c\<close>, both placed items have stacking index 12.
\<close>

theorem stacking_tie:
  "map ph_id (dispensedPhotos sample_tie) = [''a'', ''c''] \<and>
   map zIndex (dispensedPhotos sample_tie) = [12, 12] \<and>
   highestZIndex sample_tie = 13"
  by (simp add: sample_queued_eq sample_defs eval_defs)

end
